theory Spec2Isabelle
  imports Main
begin

section \<open>The mock store of the todo demo: \<^verbatim>\<open>react-19/demo/src/api/mockApi.js\<close>\<close>

text \<open>
  The module keeps four variables: the arrays \<^verbatim>\<open>todoListsData\<close> and \<^verbatim>\<open>todoItemsData\<close>
  and the counters \<^verbatim>\<open>nextListId\<close> and \<^verbatim>\<open>nextItemId\<close>. Arrays and the objects in them are
  JavaScript heap values: a variable, an array slot and a resolved promise hold references.
  The functions hand out those references (\<^verbatim>\<open>return newList\<close>, \<^verbatim>\<open>return list\<close>,
  \<^verbatim>\<open>[...todoListsData]\<close>), so the model keeps an explicit heap: one table of array objects,
  one of list objects, one of item objects. A reference is the index of the object in its
  table; allocation appends to the table, and nothing is ever freed.

  Every function of \<^verbatim>\<open>mockApi\<close> is \<^verbatim>\<open>async\<close>, awaits \<^verbatim>\<open>delay()\<close> once and then runs its
  body to the end with no further suspension point. On the single JavaScript thread the
  body is therefore one atomic step on the module state, and any interleaving of pending
  calls is a sequence of such steps. A function below is the body after the delay: it takes
  the state, and returns what the promise settles with together with the new state.

  Ids are JavaScript numbers that start at 1 and grow by one; they are modelled as \<open>nat\<close>
  (the numbers are exact below \<open>2^53\<close>). \<^verbatim>\<open>new Date().toISOString()\<close> is an input of the
  step, passed as the argument \<open>now\<close>.
\<close>

subsection \<open>Objects\<close>

type_synonym ref = nat

text \<open>\<^verbatim>\<open>{ id, title, createdAt }\<close>\<close>

record todoList =
  list_id :: nat
  list_title :: string
  list_createdAt :: string

text \<open>\<^verbatim>\<open>{ id, listId, title, priority, completed, createdAt }\<close>; the callers pass the
  priority as one of the strings \<^verbatim>\<open>'P1'\<close>, \<^verbatim>\<open>'P2'\<close>, \<^verbatim>\<open>'P3'\<close>, and the store keeps whatever
  it is given.\<close>

record todoItem =
  item_id :: nat
  item_listId :: nat
  item_title :: string
  item_priority :: string
  item_completed :: bool
  item_createdAt :: string

text \<open>The argument \<^verbatim>\<open>updates\<close> of \<^verbatim>\<open>updateItem\<close>: an object that has or has not each of the
  properties of an item. \<^verbatim>\<open>Object.assign(item, updates)\<close> copies every property that
  \<^verbatim>\<open>updates\<close> has onto the item, whichever it is.\<close>

record updates =
  upd_id :: "nat option"
  upd_listId :: "nat option"
  upd_title :: "string option"
  upd_priority :: "string option"
  upd_completed :: "bool option"
  upd_createdAt :: "string option"

definition assign :: "todoItem \<Rightarrow> updates \<Rightarrow> todoItem" where
  "assign item u =
     \<lparr>item_id = (case upd_id u of None \<Rightarrow> item_id item | Some v \<Rightarrow> v),
      item_listId = (case upd_listId u of None \<Rightarrow> item_listId item | Some v \<Rightarrow> v),
      item_title = (case upd_title u of None \<Rightarrow> item_title item | Some v \<Rightarrow> v),
      item_priority = (case upd_priority u of None \<Rightarrow> item_priority item | Some v \<Rightarrow> v),
      item_completed = (case upd_completed u of None \<Rightarrow> item_completed item | Some v \<Rightarrow> v),
      item_createdAt = (case upd_createdAt u of None \<Rightarrow> item_createdAt item | Some v \<Rightarrow> v)\<rparr>"

text \<open>\<^verbatim>\<open>new Error('List not found')\<close>, \<^verbatim>\<open>new Error('Item not found')\<close>\<close>

datatype error = Error string

text \<open>\<^verbatim>\<open>{ success: true }\<close>\<close>

record ack =
  success :: bool

subsection \<open>The module state\<close>

record store =
  arrays :: "ref list list"
  listObjs :: "todoList list"
  itemObjs :: "todoItem list"
  todoListsData :: ref
  todoItemsData :: ref
  nextListId :: nat
  nextItemId :: nat

text \<open>The state after the module is loaded: two empty arrays, both counters at 1.\<close>

definition init :: store where
  "init = \<lparr>arrays = [[], []], listObjs = [], itemObjs = [],
           todoListsData = 0, todoItemsData = 1, nextListId = 1, nextItemId = 1\<rparr>"

text \<open>The arrays the two variables point at.\<close>

definition lists_array :: "store \<Rightarrow> ref list" where
  "lists_array s = arrays s ! todoListsData s"

definition items_array :: "store \<Rightarrow> ref list" where
  "items_array s = arrays s ! todoItemsData s"

text \<open>A new array object (an array literal, \<^verbatim>\<open>filter\<close>): its reference and the new heap.\<close>

definition alloc_array :: "ref list \<Rightarrow> store \<Rightarrow> ref \<times> store" where
  "alloc_array xs s = (length (arrays s), s\<lparr>arrays := arrays s @ [xs]\<rparr>)"

subsection \<open>Todo lists\<close>

definition getAllLists :: "store \<Rightarrow> ref \<times> store" where
  "getAllLists s = alloc_array (lists_array s) s"

definition createList :: "string \<Rightarrow> string \<Rightarrow> store \<Rightarrow> ref \<times> store" where
  "createList title now s =
     (let newList = \<lparr>list_id = nextListId s, list_title = title, list_createdAt = now\<rparr>;
          r = length (listObjs s)
      in (r, s\<lparr>listObjs := listObjs s @ [newList],
               arrays := (arrays s)[todoListsData s := lists_array s @ [r]],
               nextListId := nextListId s + 1\<rparr>))"

definition updateList :: "nat \<Rightarrow> string \<Rightarrow> store \<Rightarrow> (error + ref) \<times> store" where
  "updateList i title s =
     (case find (\<lambda>l. list_id (listObjs s ! l) = i) (lists_array s) of
        None \<Rightarrow> (Inl (Error ''List not found''), s)
      | Some list \<Rightarrow>
          (Inr list,
           s\<lparr>listObjs := (listObjs s)[list := (listObjs s ! list)\<lparr>list_title := title\<rparr>]\<rparr>))"

definition deleteList :: "nat \<Rightarrow> store \<Rightarrow> ack \<times> store" where
  "deleteList i s =
     (let (a, s1) = alloc_array (filter (\<lambda>l. list_id (listObjs s ! l) \<noteq> i) (lists_array s)) s;
          s2 = s1\<lparr>todoListsData := a\<rparr>;
          (b, s3) = alloc_array
                      (filter (\<lambda>item. item_listId (itemObjs s2 ! item) \<noteq> i) (items_array s2)) s2;
          s4 = s3\<lparr>todoItemsData := b\<rparr>
      in (\<lparr>success = True\<rparr>, s4))"

subsection \<open>Todo items\<close>

definition getItemsByList :: "nat \<Rightarrow> store \<Rightarrow> ref \<times> store" where
  "getItemsByList listId s =
     alloc_array (filter (\<lambda>item. item_listId (itemObjs s ! item) = listId) (items_array s)) s"

definition createItem :: "nat \<Rightarrow> string \<Rightarrow> string \<Rightarrow> string \<Rightarrow> store \<Rightarrow> ref \<times> store" where
  "createItem listId title priority now s =
     (let newItem = \<lparr>item_id = nextItemId s, item_listId = listId, item_title = title,
                     item_priority = priority, item_completed = False, item_createdAt = now\<rparr>;
          r = length (itemObjs s)
      in (r, s\<lparr>itemObjs := itemObjs s @ [newItem],
               arrays := (arrays s)[todoItemsData s := items_array s @ [r]],
               nextItemId := nextItemId s + 1\<rparr>))"

definition updateItem :: "nat \<Rightarrow> updates \<Rightarrow> store \<Rightarrow> (error + ref) \<times> store" where
  "updateItem i u s =
     (case find (\<lambda>x. item_id (itemObjs s ! x) = i) (items_array s) of
        None \<Rightarrow> (Inl (Error ''Item not found''), s)
      | Some item \<Rightarrow>
          (Inr item, s\<lparr>itemObjs := (itemObjs s)[item := assign (itemObjs s ! item) u]\<rparr>))"

definition deleteItem :: "nat \<Rightarrow> store \<Rightarrow> ack \<times> store" where
  "deleteItem i s =
     (let (a, s1) = alloc_array (filter (\<lambda>x. item_id (itemObjs s ! x) \<noteq> i) (items_array s)) s
      in (\<lparr>success = True\<rparr>, s1\<lparr>todoItemsData := a\<rparr>))"

definition toggleItem :: "nat \<Rightarrow> store \<Rightarrow> (error + ref) \<times> store" where
  "toggleItem i s =
     (case find (\<lambda>x. item_id (itemObjs s ! x) = i) (items_array s) of
        None \<Rightarrow> (Inl (Error ''Item not found''), s)
      | Some item \<Rightarrow>
          (Inr item,
           s\<lparr>itemObjs := (itemObjs s)[item := (itemObjs s ! item)
                              \<lparr>item_completed := \<not> item_completed (itemObjs s ! item)\<rparr>]\<rparr>))"

subsection \<open>Calls, runs and what the store holds\<close>

text \<open>One call of a function of \<^verbatim>\<open>mockApi\<close>, with its arguments (and the clock reading for
  the two creating functions).\<close>

datatype operation =
    GetAllLists
  | CreateList string string
  | UpdateList nat string
  | DeleteList nat
  | GetItemsByList nat
  | CreateItem nat string string string
  | UpdateItem nat updates
  | DeleteItem nat
  | ToggleItem nat

text \<open>What a promise resolves with: a reference to an array, to a list object or to an
  item object, or the acknowledgement.\<close>

datatype result = Array ref | ListObj ref | ItemObj ref | Ack ack

fun exec :: "operation \<Rightarrow> store \<Rightarrow> (error + result) \<times> store" where
  "exec GetAllLists s = (case getAllLists s of (a, s') \<Rightarrow> (Inr (Array a), s'))"
| "exec (CreateList title now) s =
     (case createList title now s of (r, s') \<Rightarrow> (Inr (ListObj r), s'))"
| "exec (UpdateList i title) s =
     (case updateList i title s of (Inl e, s') \<Rightarrow> (Inl e, s')
                                 | (Inr r, s') \<Rightarrow> (Inr (ListObj r), s'))"
| "exec (DeleteList i) s = (case deleteList i s of (k, s') \<Rightarrow> (Inr (Ack k), s'))"
| "exec (GetItemsByList listId) s =
     (case getItemsByList listId s of (a, s') \<Rightarrow> (Inr (Array a), s'))"
| "exec (CreateItem listId title priority now) s =
     (case createItem listId title priority now s of (r, s') \<Rightarrow> (Inr (ItemObj r), s'))"
| "exec (UpdateItem i u) s =
     (case updateItem i u s of (Inl e, s') \<Rightarrow> (Inl e, s')
                             | (Inr r, s') \<Rightarrow> (Inr (ItemObj r), s'))"
| "exec (DeleteItem i) s = (case deleteItem i s of (k, s') \<Rightarrow> (Inr (Ack k), s'))"
| "exec (ToggleItem i) s =
     (case toggleItem i s of (Inl e, s') \<Rightarrow> (Inl e, s')
                           | (Inr r, s') \<Rightarrow> (Inr (ItemObj r), s'))"

text \<open>A sequence of calls, each on the state the one before left. A rejected call leaves
  its state to the next one.\<close>

fun run :: "operation list \<Rightarrow> store \<Rightarrow> store" where
  "run [] s = s"
| "run (c # cs) s = run cs (snd (exec c s))"

text \<open>The List collection and the Item collection as sequences of objects, in the order of
  the arrays.\<close>

definition todoLists :: "store \<Rightarrow> todoList list" where
  "todoLists s = map (\<lambda>r. listObjs s ! r) (lists_array s)"

definition todoItems :: "store \<Rightarrow> todoItem list" where
  "todoItems s = map (\<lambda>r. itemObjs s ! r) (items_array s)"

text \<open>The store state: which objects the two collections hold and in which order, the
  objects themselves, and the two counters. What is left out is the address of the two
  arrays and the arrays no variable of the module points at.\<close>

definition store_state ::
  "store \<Rightarrow> ref list \<times> ref list \<times> todoList list \<times> todoItem list \<times> nat \<times> nat" where
  "store_state s =
     (lists_array s, items_array s, listObjs s, itemObjs s, nextListId s, nextItemId s)"

text \<open>The shape of the heap: the two variables point at two different arrays of the heap,
  and each array holds references to objects of the heap, in the order of their
  allocation and each at most once.\<close>

definition wf_store :: "store \<Rightarrow> bool" where
  "wf_store s \<longleftrightarrow>
     todoListsData s < length (arrays s) \<and> todoItemsData s < length (arrays s) \<and>
     todoListsData s \<noteq> todoItemsData s \<and>
     (\<forall>r \<in> set (lists_array s). r < length (listObjs s)) \<and> sorted_wrt (<) (lists_array s) \<and>
     (\<forall>r \<in> set (items_array s). r < length (itemObjs s)) \<and> sorted_wrt (<) (items_array s)"

subsection \<open>Properties of a state and of a call\<close>

text \<open>Referential integrity: the \<^verbatim>\<open>listId\<close> of every Item of the collection is the id of
  a List of the collection.\<close>

definition ref_integrity :: "store \<Rightarrow> bool" where
  "ref_integrity s \<longleftrightarrow>
     (\<forall>item \<in> set (todoItems s). item_listId item \<in> set (map list_id (todoLists s)))"

text \<open>A call that gives no Item a \<^verbatim>\<open>listId\<close> other than the id of a List of the
  collection: every call but a \<^verbatim>\<open>createItem\<close> and an \<^verbatim>\<open>updateItem\<close> whose \<^verbatim>\<open>listId\<close>
  is the id of no List.\<close>

fun names_present_list :: "store \<Rightarrow> operation \<Rightarrow> bool" where
  "names_present_list s (CreateItem listId title priority now) =
     (listId \<in> set (map list_id (todoLists s)))"
| "names_present_list s (UpdateItem i u) =
     (case upd_listId u of None \<Rightarrow> True | Some l \<Rightarrow> l \<in> set (map list_id (todoLists s)))"
| "names_present_list s c = True"

fun run_names_present_lists :: "operation list \<Rightarrow> store \<Rightarrow> bool" where
  "run_names_present_lists [] s = True"
| "run_names_present_lists (c # cs) s =
     (names_present_list s c \<and> run_names_present_lists cs (snd (exec c s)))"

text \<open>A call that writes the \<^verbatim>\<open>id\<close> of no object: every call but an \<^verbatim>\<open>updateItem\<close> whose
  \<^verbatim>\<open>updates\<close> has the property \<^verbatim>\<open>id\<close>.\<close>

fun keeps_item_id :: "operation \<Rightarrow> bool" where
  "keeps_item_id (UpdateItem i u) = (upd_id u = None)"
| "keeps_item_id c = True"

text \<open>The ids a run hands out: the \<^verbatim>\<open>id\<close> of the object each \<^verbatim>\<open>createList\<close>, each
  \<^verbatim>\<open>createItem\<close> resolves with, in the order of the calls.\<close>

fun listIdIssued :: "operation \<Rightarrow> store \<Rightarrow> nat list" where
  "listIdIssued (CreateList title now) s =
     (case createList title now s of (r, s') \<Rightarrow> [list_id (listObjs s' ! r)])"
| "listIdIssued c s = []"

fun itemIdIssued :: "operation \<Rightarrow> store \<Rightarrow> nat list" where
  "itemIdIssued (CreateItem listId title priority now) s =
     (case createItem listId title priority now s of (r, s') \<Rightarrow> [item_id (itemObjs s' ! r)])"
| "itemIdIssued c s = []"

fun issuedListIds :: "operation list \<Rightarrow> store \<Rightarrow> nat list" where
  "issuedListIds [] s = []"
| "issuedListIds (c # cs) s = listIdIssued c s @ issuedListIds cs (snd (exec c s))"

fun issuedItemIds :: "operation list \<Rightarrow> store \<Rightarrow> nat list" where
  "issuedItemIds [] s = []"
| "issuedItemIds (c # cs) s = itemIdIssued c s @ issuedItemIds cs (snd (exec c s))"

text \<open>A call whose id matches no entity of the kind it looks for.\<close>

fun no_match :: "store \<Rightarrow> operation \<Rightarrow> bool" where
  "no_match s (UpdateList i title) = (i \<notin> set (map list_id (todoLists s)))"
| "no_match s (UpdateItem i u) = (i \<notin> set (map item_id (todoItems s)))"
| "no_match s (ToggleItem i) = (i \<notin> set (map item_id (todoItems s)))"
| "no_match s c = False"

subsection \<open>What a caller can do with a reference\<close>

text \<open>Code outside the module that holds a reference can write through it:
  \<^verbatim>\<open>arr.push(x)\<close>, \<^verbatim>\<open>arr.length = 0\<close>, \<^verbatim>\<open>arr[k] = x\<close> give the array new contents, and
  \<^verbatim>\<open>list.title = t\<close> gives the list object new field values.\<close>

definition write_array :: "ref \<Rightarrow> ref list \<Rightarrow> store \<Rightarrow> store" where
  "write_array a xs s = s\<lparr>arrays := (arrays s)[a := xs]\<rparr>"

definition write_list :: "ref \<Rightarrow> (todoList \<Rightarrow> todoList) \<Rightarrow> store \<Rightarrow> store" where
  "write_list r f s = s\<lparr>listObjs := (listObjs s)[r := f (listObjs s ! r)]\<rparr>"

subsection \<open>Example states\<close>

text \<open>Two Lists, the first with two Items and the second with one.\<close>

definition two_lists :: store where
  "two_lists = run [CreateList ''Groceries'' ''t0'', CreateList ''Chores'' ''t1'',
                    CreateItem 1 ''Milk'' ''P2'' ''t2'', CreateItem 2 ''Sweep'' ''P3'' ''t3'',
                    CreateItem 1 ''Eggs'' ''P1'' ''t4''] init"

text \<open>The calls of the scenario: one List, two Items, the first one toggled.\<close>

definition scenario :: "operation list" where
  "scenario = [CreateList ''Groceries'' ''t0'', CreateItem 1 ''Milk'' ''P2'' ''t1'', ToggleItem 1,
               CreateItem 1 ''Eggs'' ''P1'' ''t2'']"

text \<open>An \<^verbatim>\<open>updates\<close> with a title only, \<^verbatim>\<open>{ title: 'Bread' }\<close>, and one with an id and a
  creation time, \<^verbatim>\<open>{ id: 1, createdAt: 't9' }\<close>.\<close>

definition new_title :: updates where
  "new_title = \<lparr>upd_id = None, upd_listId = None, upd_title = Some ''Bread'', upd_priority = None,
                 upd_completed = None, upd_createdAt = None\<rparr>"

definition id_and_date :: updates where
  "id_and_date = \<lparr>upd_id = Some 1, upd_listId = None, upd_title = None, upd_priority = None,
                  upd_completed = None, upd_createdAt = Some ''t9''\<rparr>"

text \<open>A caller that awaits \<^verbatim>\<open>getAllLists()\<close> on \<open>two_lists\<close> and then sets the title of
  the first element of the array it got: \<^verbatim>\<open>lists[0].title = 'Mine'\<close>.\<close>

definition retitle :: "string \<Rightarrow> todoList \<Rightarrow> todoList" where
  "retitle t l = l\<lparr>list_title := t\<rparr>"

definition written_snapshot :: store where
  "written_snapshot =
     write_list (hd (arrays (snd (getAllLists two_lists)) ! fst (getAllLists two_lists)))
       (retitle ''Mine'') (snd (getAllLists two_lists))"

section \<open>The state after each call\<close>

lemmas api_defs = getAllLists_def createList_def updateList_def deleteList_def
  getItemsByList_def createItem_def updateItem_def deleteItem_def toggleItem_def alloc_array_def

text \<open>A call through \<open>exec\<close> is the function it names.\<close>

lemma snd_exec:
  "snd (exec c s) =
     (case c of GetAllLists \<Rightarrow> snd (getAllLists s)
      | CreateList t n \<Rightarrow> snd (createList t n s)
      | UpdateList i t \<Rightarrow> snd (updateList i t s)
      | DeleteList i \<Rightarrow> snd (deleteList i s)
      | GetItemsByList l \<Rightarrow> snd (getItemsByList l s)
      | CreateItem l t p n \<Rightarrow> snd (createItem l t p n s)
      | UpdateItem i u \<Rightarrow> snd (updateItem i u s)
      | DeleteItem i \<Rightarrow> snd (deleteItem i s)
      | ToggleItem i \<Rightarrow> snd (toggleItem i s))"
  by (cases c) (simp_all split: prod.splits sum.splits)

lemma exec_rejects:
  "isl (fst (exec c s)) \<longleftrightarrow>
     (case c of UpdateList i t \<Rightarrow> isl (fst (updateList i t s))
      | UpdateItem i u \<Rightarrow> isl (fst (updateItem i u s))
      | ToggleItem i \<Rightarrow> isl (fst (toggleItem i s))
      | _ \<Rightarrow> False)"
  by (cases c) (simp_all split: prod.splits sum.splits)

lemma exec_Inl:
  "fst (exec c s) = Inl e \<longleftrightarrow>
     (case c of UpdateList i t \<Rightarrow> fst (updateList i t s) = Inl e
      | UpdateItem i u \<Rightarrow> fst (updateItem i u s) = Inl e
      | ToggleItem i \<Rightarrow> fst (toggleItem i s) = Inl e
      | _ \<Rightarrow> False)"
  by (cases c) (auto split: prod.splits sum.splits)

declare exec.simps [simp del]

text \<open>The shape of the heap is kept by every function, so every state that a run from the
  initial state reaches has it (\<open>wf_run_init\<close>). The hypothesis \<open>wf_store s\<close> of a theorem
  below therefore holds of every state the module can be in.\<close>

lemma wf_init: "wf_store init"
  by (simp add: wf_store_def init_def lists_array_def items_array_def)

lemma wf_getAllLists: "wf_store s \<Longrightarrow> wf_store (snd (getAllLists s))"
  by (simp add: wf_store_def api_defs lists_array_def items_array_def nth_append)

lemma wf_getItemsByList: "wf_store s \<Longrightarrow> wf_store (snd (getItemsByList i s))"
  by (simp add: wf_store_def api_defs lists_array_def items_array_def nth_append)

lemma wf_createList: "wf_store s \<Longrightarrow> wf_store (snd (createList t n s))"
  by (auto simp add: wf_store_def api_defs lists_array_def items_array_def nth_append Let_def sorted_wrt_append less_Suc_eq)

lemma wf_createItem: "wf_store s \<Longrightarrow> wf_store (snd (createItem l t p n s))"
  by (auto simp add: wf_store_def api_defs lists_array_def items_array_def nth_append Let_def sorted_wrt_append less_Suc_eq)

lemma wf_updateList: "wf_store s \<Longrightarrow> wf_store (snd (updateList i t s))"
  by (auto simp add: wf_store_def api_defs lists_array_def items_array_def split: option.splits)

lemma wf_updateItem: "wf_store s \<Longrightarrow> wf_store (snd (updateItem i u s))"
  by (auto simp add: wf_store_def api_defs lists_array_def items_array_def split: option.splits)

lemma wf_toggleItem: "wf_store s \<Longrightarrow> wf_store (snd (toggleItem i s))"
  by (auto simp add: wf_store_def api_defs lists_array_def items_array_def split: option.splits)

lemma wf_deleteList: "wf_store s \<Longrightarrow> wf_store (snd (deleteList i s))"
  by (auto simp add: wf_store_def api_defs lists_array_def items_array_def nth_append Let_def sorted_wrt_filter)

lemma wf_deleteItem: "wf_store s \<Longrightarrow> wf_store (snd (deleteItem i s))"
  by (auto simp add: wf_store_def api_defs lists_array_def items_array_def nth_append Let_def sorted_wrt_filter)

lemma wf_exec: "wf_store s \<Longrightarrow> wf_store (snd (exec c s))"
  by (cases c)
    (simp_all only: snd_exec operation.case wf_getAllLists wf_createList wf_updateList
      wf_deleteList wf_getItemsByList wf_createItem wf_updateItem wf_deleteItem wf_toggleItem)

lemma wf_run: "wf_store s \<Longrightarrow> wf_store (run cs s)"
  by (induction cs arbitrary: s) (simp_all add: wf_exec)

lemma wf_run_init: "wf_store (run cs init)"
  by (simp add: wf_run wf_init)


text \<open>The collections after each function.\<close>

lemmas view_defs = todoLists_def todoItems_def lists_array_def items_array_def

lemma find_ref_None: "find (\<lambda>r. f (h ! r) = i) xs = None \<longleftrightarrow> i \<notin> set (map f (map (\<lambda>r. h ! r) xs))"
  by (auto simp: find_None_iff)

lemma find_ref_Some: "find P xs = Some r \<Longrightarrow> r \<in> set xs \<and> P r"
  by (auto simp: find_Some_iff)

lemma createList_view:
  assumes "wf_store s"
  shows "todoLists (snd (createList t n s)) =
           todoLists s @ [\<lparr>list_id = nextListId s, list_title = t, list_createdAt = n\<rparr>]"
    and "todoItems (snd (createList t n s)) = todoItems s"
    and "nextListId (snd (createList t n s)) = nextListId s + 1"
    and "nextItemId (snd (createList t n s)) = nextItemId s"
  using assms
  by (auto simp: wf_store_def api_defs view_defs Let_def nth_append)

lemma createItem_view:
  assumes "wf_store s"
  shows "todoItems (snd (createItem l t p n s)) =
           todoItems s @ [\<lparr>item_id = nextItemId s, item_listId = l, item_title = t,
                            item_priority = p, item_completed = False, item_createdAt = n\<rparr>]"
    and "todoLists (snd (createItem l t p n s)) = todoLists s"
    and "nextListId (snd (createItem l t p n s)) = nextListId s"
    and "nextItemId (snd (createItem l t p n s)) = nextItemId s + 1"
  using assms
  by (auto simp: wf_store_def api_defs view_defs Let_def nth_append)

lemma deleteList_view:
  assumes "wf_store s"
  shows "todoLists (snd (deleteList i s)) = filter (\<lambda>l. list_id l \<noteq> i) (todoLists s)"
    and "todoItems (snd (deleteList i s)) = filter (\<lambda>x. item_listId x \<noteq> i) (todoItems s)"
    and "nextListId (snd (deleteList i s)) = nextListId s"
    and "nextItemId (snd (deleteList i s)) = nextItemId s"
    and "listObjs (snd (deleteList i s)) = listObjs s"
    and "itemObjs (snd (deleteList i s)) = itemObjs s"
  using assms
  by (auto simp: wf_store_def api_defs view_defs Let_def nth_append filter_map comp_def)

lemma deleteItem_view:
  assumes "wf_store s"
  shows "todoLists (snd (deleteItem i s)) = todoLists s"
    and "todoItems (snd (deleteItem i s)) = filter (\<lambda>x. item_id x \<noteq> i) (todoItems s)"
    and "nextListId (snd (deleteItem i s)) = nextListId s"
    and "nextItemId (snd (deleteItem i s)) = nextItemId s"
    and "listObjs (snd (deleteItem i s)) = listObjs s"
    and "itemObjs (snd (deleteItem i s)) = itemObjs s"
  using assms
  by (auto simp: wf_store_def api_defs view_defs Let_def nth_append filter_map comp_def)

lemma getAllLists_view:
  assumes "wf_store s"
  shows "store_state (snd (getAllLists s)) = store_state s"
    and "arrays (snd (getAllLists s)) ! fst (getAllLists s) = lists_array s"
  using assms
  by (auto simp: wf_store_def api_defs view_defs store_state_def nth_append)

lemma getItemsByList_view:
  assumes "wf_store s"
  shows "store_state (snd (getItemsByList l s)) = store_state s"
    and "arrays (snd (getItemsByList l s)) ! fst (getItemsByList l s) =
           filter (\<lambda>x. item_listId (itemObjs s ! x) = l) (items_array s)"
  using assms
  by (auto simp: wf_store_def api_defs view_defs store_state_def nth_append)

lemma todo_of_store_state:
  "store_state s' = store_state s \<Longrightarrow>
     todoLists s' = todoLists s \<and> todoItems s' = todoItems s \<and>
     nextListId s' = nextListId s \<and> nextItemId s' = nextItemId s"
  by (simp add: store_state_def todoLists_def todoItems_def)

lemma updateList_Inl:
  "fst (updateList i t s) = Inl e \<Longrightarrow>
     snd (updateList i t s) = s \<and> e = Error ''List not found'' \<and> i \<notin> set (map list_id (todoLists s))"
  by (cases "find (\<lambda>l. list_id (listObjs s ! l) = i) (lists_array s)")
    (simp_all add: updateList_def, auto simp: todoLists_def find_None_iff)

lemma updateItem_Inl:
  "fst (updateItem i u s) = Inl e \<Longrightarrow>
     snd (updateItem i u s) = s \<and> e = Error ''Item not found'' \<and> i \<notin> set (map item_id (todoItems s))"
  by (cases "find (\<lambda>x. item_id (itemObjs s ! x) = i) (items_array s)")
    (simp_all add: updateItem_def, auto simp: todoItems_def find_None_iff)

lemma toggleItem_Inl:
  "fst (toggleItem i s) = Inl e \<Longrightarrow>
     snd (toggleItem i s) = s \<and> e = Error ''Item not found'' \<and> i \<notin> set (map item_id (todoItems s))"
  by (cases "find (\<lambda>x. item_id (itemObjs s ! x) = i) (items_array s)")
    (simp_all add: toggleItem_def, auto simp: todoItems_def find_None_iff)

lemma toggleItem_Inr:
  "fst (toggleItem i s) = Inr r \<Longrightarrow>
     r \<in> set (items_array s) \<and> item_id (itemObjs s ! r) = i \<and>
     snd (toggleItem i s) = s\<lparr>itemObjs := (itemObjs s)[r := (itemObjs s ! r)
                              \<lparr>item_completed := \<not> item_completed (itemObjs s ! r)\<rparr>]\<rparr>"
  by (cases "find (\<lambda>x. item_id (itemObjs s ! x) = i) (items_array s)")
    (auto simp: toggleItem_def dest: find_ref_Some)

text \<open>Writing one object of a table changes one entry of a collection.\<close>

lemma nth_update_field:
  "(\<And>y. f (g y) = f y) \<Longrightarrow> f (h[r := g (h ! r)] ! x) = f (h ! x)"
  by (cases "r < length h") (auto simp: nth_list_update list_update_beyond)

lemma updateList_view:
  shows "map list_id (todoLists (snd (updateList i t s))) = map list_id (todoLists s)"
    and "map list_createdAt (todoLists (snd (updateList i t s))) = map list_createdAt (todoLists s)"
    and "todoItems (snd (updateList i t s)) = todoItems s"
    and "nextListId (snd (updateList i t s)) = nextListId s"
    and "nextItemId (snd (updateList i t s)) = nextItemId s"
  by (auto simp: updateList_def view_defs nth_update_field split: option.splits)

lemma toggleItem_view:
  shows "map item_id (todoItems (snd (toggleItem i s))) = map item_id (todoItems s)"
    and "map item_listId (todoItems (snd (toggleItem i s))) = map item_listId (todoItems s)"
    and "todoLists (snd (toggleItem i s)) = todoLists s"
    and "nextListId (snd (toggleItem i s)) = nextListId s"
    and "nextItemId (snd (toggleItem i s)) = nextItemId s"
  by (auto simp: toggleItem_def view_defs nth_update_field split: option.splits)

lemma assign_keeps:
  "upd_id u = None \<Longrightarrow> item_id (assign x u) = item_id x"
  "upd_listId u = None \<Longrightarrow> item_listId (assign x u) = item_listId x"
  "upd_title u = None \<Longrightarrow> item_title (assign x u) = item_title x"
  "upd_priority u = None \<Longrightarrow> item_priority (assign x u) = item_priority x"
  "upd_completed u = None \<Longrightarrow> item_completed (assign x u) = item_completed x"
  "upd_createdAt u = None \<Longrightarrow> item_createdAt (assign x u) = item_createdAt x"
  by (simp_all add: assign_def)

lemma updateItem_view:
  shows "todoLists (snd (updateItem i u s)) = todoLists s"
    and "nextListId (snd (updateItem i u s)) = nextListId s"
    and "nextItemId (snd (updateItem i u s)) = nextItemId s"
    and "upd_id u = None \<Longrightarrow> map item_id (todoItems (snd (updateItem i u s))) = map item_id (todoItems s)"
    and "upd_listId u = None \<Longrightarrow> map item_listId (todoItems (snd (updateItem i u s))) = map item_listId (todoItems s)"
  by (auto simp: updateItem_def view_defs nth_update_field [where g = "\<lambda>x. assign x u"] assign_keeps split: option.splits)

text \<open>When a call is rejected.\<close>

lemma updateList_isl:
  "isl (fst (updateList i t s)) \<longleftrightarrow> i \<notin> set (map list_id (todoLists s))"
  using find_ref_None [of list_id "listObjs s" i "lists_array s"]
  by (cases "find (\<lambda>l. list_id (listObjs s ! l) = i) (lists_array s)")
    (simp_all add: updateList_def todoLists_def)

lemma updateItem_isl:
  "isl (fst (updateItem i u s)) \<longleftrightarrow> i \<notin> set (map item_id (todoItems s))"
  using find_ref_None [of item_id "itemObjs s" i "items_array s"]
  by (cases "find (\<lambda>x. item_id (itemObjs s ! x) = i) (items_array s)")
    (simp_all add: updateItem_def todoItems_def)

lemma toggleItem_isl:
  "isl (fst (toggleItem i s)) \<longleftrightarrow> i \<notin> set (map item_id (todoItems s))"
  using find_ref_None [of item_id "itemObjs s" i "items_array s"]
  by (cases "find (\<lambda>x. item_id (itemObjs s ! x) = i) (items_array s)")
    (simp_all add: toggleItem_def todoItems_def)

text \<open>The counters and the ids a run hands out.\<close>

lemma nextListId_exec:
  "nextListId (snd (exec c s)) =
     (case c of CreateList t n \<Rightarrow> nextListId s + 1 | _ \<Rightarrow> nextListId s)"
  unfolding snd_exec
  by (cases c) (simp_all add: api_defs Let_def split: option.splits)

lemma nextItemId_exec:
  "nextItemId (snd (exec c s)) =
     (case c of CreateItem l t p n \<Rightarrow> nextItemId s + 1 | _ \<Rightarrow> nextItemId s)"
  unfolding snd_exec
  by (cases c) (simp_all add: api_defs Let_def split: option.splits)

lemma listIdIssued_eq:
  "listIdIssued c s = (case c of CreateList t n \<Rightarrow> [nextListId s] | _ \<Rightarrow> [])"
  by (cases c) (simp_all add: createList_def Let_def)

lemma itemIdIssued_eq:
  "itemIdIssued c s = (case c of CreateItem l t p n \<Rightarrow> [nextItemId s] | _ \<Rightarrow> [])"
  by (cases c) (simp_all add: createItem_def Let_def)

lemma nextListId_run: "nextListId s \<le> nextListId (run cs s)"
proof (induction cs arbitrary: s)
  case Nil
  show ?case by simp
next
  case (Cons c cs)
  have "nextListId s \<le> nextListId (snd (exec c s))"
    by (simp add: nextListId_exec split: operation.splits)
  also have "\<dots> \<le> nextListId (run cs (snd (exec c s)))"
    by (rule Cons.IH)
  finally show ?case by simp
qed

lemma nextItemId_run: "nextItemId s \<le> nextItemId (run cs s)"
proof (induction cs arbitrary: s)
  case Nil
  show ?case by simp
next
  case (Cons c cs)
  have "nextItemId s \<le> nextItemId (snd (exec c s))"
    by (simp add: nextItemId_exec split: operation.splits)
  also have "\<dots> \<le> nextItemId (run cs (snd (exec c s)))"
    by (rule Cons.IH)
  finally show ?case by simp
qed

lemma issuedListIds_upt: "issuedListIds cs s = [nextListId s ..< nextListId (run cs s)]"
proof (induction cs arbitrary: s)
  case Nil
  show ?case by simp
next
  case (Cons c cs)
  let ?s = "snd (exec c s)"
  let ?m = "nextListId (run cs ?s)"
  have le: "nextListId ?s \<le> ?m"
    by (rule nextListId_run)
  have step: "issuedListIds (c # cs) s = listIdIssued c s @ [nextListId ?s ..< ?m]"
    by (simp only: issuedListIds.simps Cons.IH [of ?s])
  have fin: "run (c # cs) s = run cs ?s"
    by (simp only: run.simps)
  show ?case
  proof (cases "listIdIssued c s = []")
    case True
    then have "nextListId ?s = nextListId s"
      unfolding listIdIssued_eq nextListId_exec by (cases c) simp_all
    with step True fin show ?thesis
      by (simp only: append_Nil)
  next
    case False
    then have issued: "listIdIssued c s = [nextListId s]"
      and nxt: "nextListId ?s = Suc (nextListId s)"
      unfolding listIdIssued_eq nextListId_exec by (cases c; simp)+
    from le nxt have "nextListId s < ?m"
      by (simp only: Suc_le_eq)
    then have "[nextListId s ..< ?m] = nextListId s # [Suc (nextListId s) ..< ?m]"
      by (rule upt_conv_Cons)
    with step issued nxt fin show ?thesis
      by (simp only: append_Cons append_Nil)
  qed
qed

lemma issuedItemIds_upt: "issuedItemIds cs s = [nextItemId s ..< nextItemId (run cs s)]"
proof (induction cs arbitrary: s)
  case Nil
  show ?case by simp
next
  case (Cons c cs)
  let ?s = "snd (exec c s)"
  let ?m = "nextItemId (run cs ?s)"
  have le: "nextItemId ?s \<le> ?m"
    by (rule nextItemId_run)
  have step: "issuedItemIds (c # cs) s = itemIdIssued c s @ [nextItemId ?s ..< ?m]"
    by (simp only: issuedItemIds.simps Cons.IH [of ?s])
  have fin: "run (c # cs) s = run cs ?s"
    by (simp only: run.simps)
  show ?case
  proof (cases "itemIdIssued c s = []")
    case True
    then have "nextItemId ?s = nextItemId s"
      unfolding itemIdIssued_eq nextItemId_exec by (cases c) simp_all
    with step True fin show ?thesis
      by (simp only: append_Nil)
  next
    case False
    then have issued: "itemIdIssued c s = [nextItemId s]"
      and nxt: "nextItemId ?s = Suc (nextItemId s)"
      unfolding itemIdIssued_eq nextItemId_exec by (cases c; simp)+
    from le nxt have "nextItemId s < ?m"
      by (simp only: Suc_le_eq)
    then have "[nextItemId s ..< ?m] = nextItemId s # [Suc (nextItemId s) ..< ?m]"
      by (rule upt_conv_Cons)
    with step issued nxt fin show ?thesis
      by (simp only: append_Cons append_Nil)
  qed
qed



text \<open>What each call does to the two collections.\<close>

lemma reads_view:
  assumes "wf_store s"
  shows "todoLists (snd (getAllLists s)) = todoLists s"
    and "todoItems (snd (getAllLists s)) = todoItems s"
    and "nextListId (snd (getAllLists s)) = nextListId s"
    and "nextItemId (snd (getAllLists s)) = nextItemId s"
    and "todoLists (snd (getItemsByList l s)) = todoLists s"
    and "todoItems (snd (getItemsByList l s)) = todoItems s"
    and "nextListId (snd (getItemsByList l s)) = nextListId s"
    and "nextItemId (snd (getItemsByList l s)) = nextItemId s"
  using todo_of_store_state [OF getAllLists_view(1) [OF assms]]
    todo_of_store_state [OF getItemsByList_view(1) [OF assms]]
  by simp_all

lemma list_ids_exec:
  assumes "wf_store s"
    and "\<forall>i \<in> set (map list_id (todoLists s)). i < nextListId s"
    and "distinct (map list_id (todoLists s))"
  shows "(\<forall>i \<in> set (map list_id (todoLists (snd (exec c s)))). i < nextListId (snd (exec c s))) \<and>
         distinct (map list_id (todoLists (snd (exec c s))))"
proof (cases c)
  case (CreateList t n)
  with assms show ?thesis
    by (auto simp: snd_exec createList_view less_Suc_eq)
next
  case (DeleteList i)
  with assms show ?thesis
    by (auto simp: snd_exec deleteList_view distinct_map_filter)
qed (use assms in \<open>simp_all add: snd_exec reads_view createItem_view deleteItem_view
      updateList_view updateItem_view toggleItem_view\<close>)

lemma item_ids_exec:
  assumes "wf_store s" and "keeps_item_id c"
    and "\<forall>i \<in> set (map item_id (todoItems s)). i < nextItemId s"
    and "distinct (map item_id (todoItems s))"
  shows "(\<forall>i \<in> set (map item_id (todoItems (snd (exec c s)))). i < nextItemId (snd (exec c s))) \<and>
         distinct (map item_id (todoItems (snd (exec c s))))"
proof (cases c)
  case (CreateItem l t p n)
  with assms show ?thesis
    by (auto simp: snd_exec createItem_view less_Suc_eq)
next
  case (DeleteList i)
  with assms show ?thesis
    by (auto simp: snd_exec deleteList_view distinct_map_filter)
next
  case (DeleteItem i)
  with assms show ?thesis
    by (auto simp: snd_exec deleteItem_view distinct_map_filter)
qed (use assms in \<open>simp_all add: snd_exec reads_view createList_view
      updateList_view updateItem_view toggleItem_view\<close>)

lemma list_ids_run:
  assumes "wf_store s"
    and "\<forall>i \<in> set (map list_id (todoLists s)). i < nextListId s"
    and "distinct (map list_id (todoLists s))"
  shows "(\<forall>i \<in> set (map list_id (todoLists (run cs s))). i < nextListId (run cs s)) \<and>
         distinct (map list_id (todoLists (run cs s)))"
  using assms
proof (induction cs arbitrary: s)
  case Nil
  then show ?case by simp
next
  case (Cons c cs)
  from list_ids_exec [OF Cons.prems, of c] wf_exec [OF Cons.prems(1), of c]
  show ?case by (simp add: Cons.IH)
qed

lemma item_ids_run:
  assumes "wf_store s" and "\<forall>c \<in> set cs. keeps_item_id c"
    and "\<forall>i \<in> set (map item_id (todoItems s)). i < nextItemId s"
    and "distinct (map item_id (todoItems s))"
  shows "(\<forall>i \<in> set (map item_id (todoItems (run cs s))). i < nextItemId (run cs s)) \<and>
         distinct (map item_id (todoItems (run cs s)))"
  using assms
proof (induction cs arbitrary: s)
  case Nil
  then show ?case by simp
next
  case (Cons c cs)
  from Cons.prems(2) have k: "keeps_item_id c" and ks: "\<forall>c \<in> set cs. keeps_item_id c"
    by simp_all
  from item_ids_exec [OF Cons.prems(1) k Cons.prems(3,4)] wf_exec [OF Cons.prems(1), of c] ks
  show ?case by (simp add: Cons.IH)
qed

lemma init_view:
  "todoLists init = []" "todoItems init = []" "nextListId init = 1" "nextItemId init = 1"
  by (simp_all add: init_def view_defs)

lemma createItem_result:
  "itemObjs (snd (createItem l t p n s)) ! fst (createItem l t p n s) =
     \<lparr>item_id = nextItemId s, item_listId = l, item_title = t, item_priority = p,
      item_completed = False, item_createdAt = n\<rparr>"
  by (simp add: createItem_def Let_def)

text \<open>Referential integrity, call by call.\<close>

lemma ref_integrity_alt:
  "ref_integrity s \<longleftrightarrow>
     set (map item_listId (todoItems s)) \<subseteq> set (map list_id (todoLists s))"
  by (auto simp: ref_integrity_def)

lemma assign_listId:
  "item_listId (assign x u) = (case upd_listId u of None \<Rightarrow> item_listId x | Some l \<Rightarrow> l)"
  by (simp add: assign_def)

lemma updateItem_listIds:
  "set (map item_listId (todoItems (snd (updateItem i u s)))) \<subseteq>
     set (map item_listId (todoItems s)) \<union> set_option (upd_listId u)"
proof (cases "find (\<lambda>x. item_id (itemObjs s ! x) = i) (items_array s)")
  case None
  then show ?thesis by (auto simp: updateItem_def)
next
  case (Some r)
  have "item_listId ((itemObjs s)[r := assign (itemObjs s ! r) u] ! x)
      \<in> insert (item_listId (itemObjs s ! x)) (set_option (upd_listId u))" for x
    by (cases "r < length (itemObjs s)"; cases "x = r")
      (auto simp: assign_listId list_update_beyond split: option.splits)
  with Some show ?thesis
    by (auto simp: updateItem_def view_defs)
qed

lemma ref_integrity_exec:
  assumes "wf_store s" and "ref_integrity s" and "names_present_list s c"
  shows "ref_integrity (snd (exec c s))"
proof (cases c)
  case (DeleteList i)
  with assms show ?thesis
    by (auto simp: ref_integrity_def snd_exec deleteList_view)
next
  case (DeleteItem i)
  with assms show ?thesis
    by (auto simp: ref_integrity_def snd_exec deleteItem_view)
next
  case (CreateList t n)
  with assms show ?thesis
    by (auto simp: ref_integrity_def snd_exec createList_view)
next
  case (CreateItem l t p n)
  with assms show ?thesis
    by (auto simp: ref_integrity_def snd_exec createItem_view)
next
  case (UpdateItem i u)
  with assms updateItem_listIds [of i u s] show ?thesis
    by (auto simp: ref_integrity_alt snd_exec updateItem_view split: option.splits)
qed (use assms in \<open>simp_all add: ref_integrity_alt snd_exec reads_view
      updateList_view toggleItem_view\<close>)

text \<open>Writing one field of one object.\<close>

lemma find_snoc:
  "\<forall>x \<in> set xs. \<not> P x \<Longrightarrow> P r \<Longrightarrow> find P (xs @ [r]) = Some r"
  by (induction xs) simp_all

lemma map_nth_update_distinct:
  "distinct xs \<Longrightarrow> k < length xs \<Longrightarrow> xs ! k < length h \<Longrightarrow>
     map (\<lambda>x. h[xs ! k := v] ! x) xs = (map (\<lambda>x. h ! x) xs)[k := v]"
  by (auto simp: list_eq_iff_nth_eq nth_list_update nth_eq_iff_index_eq)

lemma wf_distinct:
  "wf_store s \<Longrightarrow> distinct (lists_array s) \<and> distinct (items_array s)"
  by (simp add: wf_store_def strict_sorted_iff)

lemma updateList_frame:
  "list_id (listObjs (snd (updateList i t s)) ! x) = list_id (listObjs s ! x)"
  "list_createdAt (listObjs (snd (updateList i t s)) ! x) = list_createdAt (listObjs s ! x)"
  by (cases "find (\<lambda>l. list_id (listObjs s ! l) = i) (lists_array s)";
      simp add: updateList_def nth_update_field)+

lemma toggleItem_frame:
  "item_id (itemObjs (snd (toggleItem i s)) ! x) = item_id (itemObjs s ! x)"
  "item_createdAt (itemObjs (snd (toggleItem i s)) ! x) = item_createdAt (itemObjs s ! x)"
  by (cases "find (\<lambda>x. item_id (itemObjs s ! x) = i) (items_array s)";
      simp add: toggleItem_def nth_update_field)+

lemma updateItem_frame:
  "upd_id u = None \<Longrightarrow>
     item_id (itemObjs (snd (updateItem i u s)) ! x) = item_id (itemObjs s ! x)"
  "upd_createdAt u = None \<Longrightarrow>
     item_createdAt (itemObjs (snd (updateItem i u s)) ! x) = item_createdAt (itemObjs s ! x)"
  by (cases "find (\<lambda>x. item_id (itemObjs s ! x) = i) (items_array s)";
      simp add: updateItem_def nth_update_field [where g = "\<lambda>x. assign x u"] assign_keeps)+

lemma create_then_update:
  assumes wf: "wf_store s"
    and below: "\<forall>i \<in> set (map list_id (todoLists s)). i < nextListId s"
  shows "updateList (nextListId s) t' (snd (createList t n s)) =
           (Inr (fst (createList t n s)),
            (snd (createList t n s))\<lparr>listObjs := listObjs s @
               [\<lparr>list_id = nextListId s, list_title = t', list_createdAt = n\<rparr>]\<rparr>)"
proof -
  let ?r = "length (listObjs s)"
  let ?s1 = "snd (createList t n s)"
  have arr: "lists_array ?s1 = lists_array s @ [?r]"
    using wf by (simp add: createList_def Let_def wf_store_def view_defs)
  have objs: "listObjs ?s1 = listObjs s @ [\<lparr>list_id = nextListId s, list_title = t, list_createdAt = n\<rparr>]"
    by (simp add: createList_def Let_def)
  have old: "\<forall>x \<in> set (lists_array s). \<not> list_id (listObjs ?s1 ! x) = nextListId s"
    using wf below by (auto simp: objs wf_store_def nth_append todoLists_def)
  have new: "list_id (listObjs ?s1 ! ?r) = nextListId s"
    by (simp add: objs)
  have "find (\<lambda>l. list_id (listObjs ?s1 ! l) = nextListId s) (lists_array ?s1) = Some ?r"
    unfolding arr using old new by (rule find_snoc)
  then show ?thesis
    by (simp add: updateList_def) (simp add: createList_def Let_def)
qed

text \<open>Arrays that no variable of the module points at.\<close>

lemma array_stable_exec:
  assumes "wf_store s" and "a < length (arrays s)"
    and "a \<noteq> todoListsData s" and "a \<noteq> todoItemsData s"
  shows "arrays (snd (exec c s)) ! a = arrays s ! a \<and> a < length (arrays (snd (exec c s))) \<and>
         a \<noteq> todoListsData (snd (exec c s)) \<and> a \<noteq> todoItemsData (snd (exec c s))"
  unfolding snd_exec using assms
  by (cases c)
    (auto simp: api_defs wf_store_def Let_def nth_append split: option.splits)

lemma array_stable_run:
  assumes "wf_store s" and "a < length (arrays s)"
    and "a \<noteq> todoListsData s" and "a \<noteq> todoItemsData s"
  shows "arrays (run cs s) ! a = arrays s ! a"
  using assms
proof (induction cs arbitrary: s)
  case Nil
  show ?case by simp
next
  case (Cons c cs)
  from array_stable_exec [OF Cons.prems, of c] wf_exec [OF Cons.prems(1), of c]
  show ?case by (simp add: Cons.IH)
qed

lemma write_array_other:
  "a \<noteq> todoListsData s \<Longrightarrow> a \<noteq> todoItemsData s \<Longrightarrow>
     store_state (write_array a xs s) = store_state s"
  by (simp add: write_array_def store_state_def view_defs)

lemma getAllLists_fresh:
  assumes "wf_store s"
  shows "fst (getAllLists s) < length (arrays (snd (getAllLists s)))"
    and "fst (getAllLists s) \<noteq> todoListsData (snd (getAllLists s))"
    and "fst (getAllLists s) \<noteq> todoItemsData (snd (getAllLists s))"
  using assms by (auto simp: api_defs wf_store_def)

lemma getItemsByList_fresh:
  assumes "wf_store s"
  shows "fst (getItemsByList l s) < length (arrays (snd (getItemsByList l s)))"
    and "fst (getItemsByList l s) \<noteq> todoListsData (snd (getItemsByList l s))"
    and "fst (getItemsByList l s) \<noteq> todoItemsData (snd (getItemsByList l s))"
  using assms by (auto simp: api_defs wf_store_def)

text \<open>A call sees the store state only: the two collections, the objects and the counters.\<close>

lemma store_state_eq:
  "store_state s1 = store_state s2 \<longleftrightarrow>
     lists_array s1 = lists_array s2 \<and> items_array s1 = items_array s2 \<and>
     listObjs s1 = listObjs s2 \<and> itemObjs s1 = itemObjs s2 \<and>
     nextListId s1 = nextListId s2 \<and> nextItemId s1 = nextItemId s2"
  by (simp add: store_state_def)

lemma arrays_after:
  assumes "wf_store s"
  shows "lists_array (snd (getAllLists s)) = lists_array s"
    and "items_array (snd (getAllLists s)) = items_array s"
    and "lists_array (snd (getItemsByList l s)) = lists_array s"
    and "items_array (snd (getItemsByList l s)) = items_array s"
    and "lists_array (snd (createList t n s)) = lists_array s @ [length (listObjs s)]"
    and "items_array (snd (createList t n s)) = items_array s"
    and "lists_array (snd (createItem l t p n s)) = lists_array s"
    and "items_array (snd (createItem l t p n s)) = items_array s @ [length (itemObjs s)]"
    and "lists_array (snd (deleteList i s)) =
           filter (\<lambda>x. list_id (listObjs s ! x) \<noteq> i) (lists_array s)"
    and "items_array (snd (deleteList i s)) =
           filter (\<lambda>x. item_listId (itemObjs s ! x) \<noteq> i) (items_array s)"
    and "lists_array (snd (deleteItem i s)) = lists_array s"
    and "items_array (snd (deleteItem i s)) =
           filter (\<lambda>x. item_id (itemObjs s ! x) \<noteq> i) (items_array s)"
  using assms
  by (simp_all add: api_defs view_defs wf_store_def Let_def nth_append)

lemma arrays_after_write:
  shows "lists_array (snd (updateList i t s)) = lists_array s"
    and "items_array (snd (updateList i t s)) = items_array s"
    and "lists_array (snd (updateItem i u s)) = lists_array s"
    and "items_array (snd (updateItem i u s)) = items_array s"
    and "lists_array (snd (toggleItem i s)) = lists_array s"
    and "items_array (snd (toggleItem i s)) = items_array s"
  by (simp_all add: api_defs view_defs split: option.splits)

lemma objs_after:
  shows "listObjs (snd (getAllLists s)) = listObjs s"
    and "itemObjs (snd (getAllLists s)) = itemObjs s"
    and "listObjs (snd (getItemsByList l s)) = listObjs s"
    and "itemObjs (snd (getItemsByList l s)) = itemObjs s"
    and "listObjs (snd (createList t n s)) =
           listObjs s @ [\<lparr>list_id = nextListId s, list_title = t, list_createdAt = n\<rparr>]"
    and "itemObjs (snd (createList t n s)) = itemObjs s"
    and "listObjs (snd (createItem l t p n s)) = listObjs s"
    and "itemObjs (snd (createItem l t p n s)) =
           itemObjs s @ [\<lparr>item_id = nextItemId s, item_listId = l, item_title = t,
                           item_priority = p, item_completed = False, item_createdAt = n\<rparr>]"
    and "listObjs (snd (deleteList i s)) = listObjs s"
    and "itemObjs (snd (deleteList i s)) = itemObjs s"
    and "listObjs (snd (deleteItem i s)) = listObjs s"
    and "itemObjs (snd (deleteItem i s)) = itemObjs s"
    and "listObjs (snd (updateList i t s)) =
           (case find (\<lambda>x. list_id (listObjs s ! x) = i) (lists_array s) of
              None \<Rightarrow> listObjs s
            | Some r \<Rightarrow> (listObjs s)[r := (listObjs s ! r)\<lparr>list_title := t\<rparr>])"
    and "itemObjs (snd (updateList i t s)) = itemObjs s"
    and "listObjs (snd (updateItem i u s)) = listObjs s"
    and "itemObjs (snd (updateItem i u s)) =
           (case find (\<lambda>x. item_id (itemObjs s ! x) = i) (items_array s) of
              None \<Rightarrow> itemObjs s
            | Some r \<Rightarrow> (itemObjs s)[r := assign (itemObjs s ! r) u])"
    and "listObjs (snd (toggleItem i s)) = listObjs s"
    and "itemObjs (snd (toggleItem i s)) =
           (case find (\<lambda>x. item_id (itemObjs s ! x) = i) (items_array s) of
              None \<Rightarrow> itemObjs s
            | Some r \<Rightarrow> (itemObjs s)[r := (itemObjs s ! r)
                                   \<lparr>item_completed := \<not> item_completed (itemObjs s ! r)\<rparr>])"
  by (simp_all add: api_defs Let_def split: option.splits)

lemma counters_after:
  shows "nextListId (snd (getAllLists s)) = nextListId s"
    and "nextItemId (snd (getAllLists s)) = nextItemId s"
    and "nextListId (snd (getItemsByList l s)) = nextListId s"
    and "nextItemId (snd (getItemsByList l s)) = nextItemId s"
    and "nextListId (snd (createList t n s)) = nextListId s + 1"
    and "nextItemId (snd (createList t n s)) = nextItemId s"
    and "nextListId (snd (createItem l t p n s)) = nextListId s"
    and "nextItemId (snd (createItem l t p n s)) = nextItemId s + 1"
    and "nextListId (snd (deleteList i s)) = nextListId s"
    and "nextItemId (snd (deleteList i s)) = nextItemId s"
    and "nextListId (snd (deleteItem i s)) = nextListId s"
    and "nextItemId (snd (deleteItem i s)) = nextItemId s"
    and "nextListId (snd (updateList i t s)) = nextListId s"
    and "nextItemId (snd (updateList i t s)) = nextItemId s"
    and "nextListId (snd (updateItem i u s)) = nextListId s"
    and "nextItemId (snd (updateItem i u s)) = nextItemId s"
    and "nextListId (snd (toggleItem i s)) = nextListId s"
    and "nextItemId (snd (toggleItem i s)) = nextItemId s"
  by (simp_all add: api_defs Let_def split: option.splits)

lemma store_state_exec:
  assumes "wf_store s1" and "wf_store s2" and "store_state s1 = store_state s2"
  shows "store_state (snd (exec c s1)) = store_state (snd (exec c s2))"
proof -
  from assms(3) have eq: "lists_array s1 = lists_array s2" "items_array s1 = items_array s2"
    "listObjs s1 = listObjs s2" "itemObjs s1 = itemObjs s2"
    "nextListId s1 = nextListId s2" "nextItemId s1 = nextItemId s2"
    by (simp_all add: store_state_eq)
  show ?thesis
    unfolding snd_exec store_state_eq
    by (cases c)
      (simp_all add: arrays_after [OF assms(1)] arrays_after [OF assms(2)] arrays_after_write
        objs_after counters_after eq split: option.splits)
qed

lemma store_state_run:
  assumes "wf_store s1" and "wf_store s2" and "store_state s1 = store_state s2"
  shows "store_state (run cs s1) = store_state (run cs s2)"
  using assms
proof (induction cs arbitrary: s1 s2)
  case Nil
  then show ?case by simp
next
  case (Cons c cs)
  have "store_state (run cs (snd (exec c s1))) = store_state (run cs (snd (exec c s2)))"
    using wf_exec [OF Cons.prems(1), of c] wf_exec [OF Cons.prems(2), of c]
      store_state_exec [OF Cons.prems, of c]
    by (rule Cons.IH)
  then show ?case by simp
qed

lemma wf_write_array:
  "wf_store s \<Longrightarrow> a \<noteq> todoListsData s \<Longrightarrow> a \<noteq> todoItemsData s \<Longrightarrow>
     wf_store (write_array a xs s)"
  by (simp add: wf_store_def write_array_def view_defs)

lemma fst_exec:
  "fst (exec c s) =
     (case c of GetAllLists \<Rightarrow> Inr (Array (length (arrays s)))
      | CreateList t n \<Rightarrow> Inr (ListObj (length (listObjs s)))
      | UpdateList i t \<Rightarrow>
          (case find (\<lambda>x. list_id (listObjs s ! x) = i) (lists_array s) of
             None \<Rightarrow> Inl (Error ''List not found'') | Some r \<Rightarrow> Inr (ListObj r))
      | DeleteList i \<Rightarrow> Inr (Ack \<lparr>success = True\<rparr>)
      | GetItemsByList l \<Rightarrow> Inr (Array (length (arrays s)))
      | CreateItem l t p n \<Rightarrow> Inr (ItemObj (length (itemObjs s)))
      | UpdateItem i u \<Rightarrow>
          (case find (\<lambda>x. item_id (itemObjs s ! x) = i) (items_array s) of
             None \<Rightarrow> Inl (Error ''Item not found'') | Some r \<Rightarrow> Inr (ItemObj r))
      | DeleteItem i \<Rightarrow> Inr (Ack \<lparr>success = True\<rparr>)
      | ToggleItem i \<Rightarrow>
          (case find (\<lambda>x. item_id (itemObjs s ! x) = i) (items_array s) of
             None \<Rightarrow> Inl (Error ''Item not found'') | Some r \<Rightarrow> Inr (ItemObj r)))"
  by (cases c) (simp_all add: exec.simps api_defs Let_def split: option.splits)

lemma fst_exec_write_array:
  assumes "a \<noteq> todoListsData s" and "a \<noteq> todoItemsData s"
  shows "fst (exec c (write_array a xs s)) = fst (exec c s)"
  unfolding fst_exec using assms
  by (cases c) (simp_all add: write_array_def view_defs)

section \<open>The scenario of the specification\<close>

text \<open>
  Create the List \<^verbatim>\<open>'Groceries'\<close> (id 1), the Item \<^verbatim>\<open>'Milk'\<close> in it (id 1, not completed),
  toggle Item 1 (completed), create the Item \<^verbatim>\<open>'Eggs'\<close> (id 2), delete List 1: both
  collections are empty.
\<close>

lemma scenario_run:
  "map list_id (todoLists (run scenario init)) = [1] \<and>
   map item_id (todoItems (run scenario init)) = [1, 2] \<and>
   map item_completed (todoItems (run scenario init)) = [True, False] \<and>
   todoLists (run (scenario @ [DeleteList 1]) init) = [] \<and>
   todoItems (run (scenario @ [DeleteList 1]) init) = []"
  by code_simp

section \<open>The claims\<close>

subsection \<open>Cascading delete\<close>

text \<open>
  Claim C1. Right after \<^verbatim>\<open>deleteList(i)\<close>, \<^verbatim>\<open>getItemsByList(i)\<close> resolves with an empty
  array and no Item of the item collection has \<^verbatim>\<open>listId\<close> equal to \<open>i\<close>. This holds for
  every id \<open>i\<close> and every state, so in particular for the id of every List that is
  present; the Items are removed by the same step that removes the List.
\<close>

theorem deleteList_cascade:
  "case getItemsByList i (snd (deleteList i s)) of (a, s') \<Rightarrow>
     arrays s' ! a = [] \<and>
     (\<forall>item \<in> set (todoItems (snd (deleteList i s))). item_listId item \<noteq> i)"
  by (simp add: api_defs view_defs Let_def filter_empty_conv nth_append)

theorem deleteList_cascade_witness:
  "map item_listId (todoItems two_lists) = [1, 2, 1] \<and>
   map item_listId (todoItems (snd (deleteList 1 two_lists))) = [2] \<and>
   arrays (snd (getItemsByList 1 (snd (deleteList 1 two_lists)))) !
     fst (getItemsByList 1 (snd (deleteList 1 two_lists))) = []"
proof -
  have a: "map item_listId (todoItems two_lists) = [1, 2, 1]"
    "map item_listId (todoItems (snd (deleteList 1 two_lists))) = [2]"
    by code_simp+
  from deleteList_cascade [of 1 two_lists] a
  show ?thesis by (simp add: case_prod_beta)
qed

subsection \<open>Referential integrity\<close>

text \<open>
  Claim C2 says that every call keeps referential integrity, \<^verbatim>\<open>createItem\<close> included. The
  store checks no \<^verbatim>\<open>listId\<close>: \<^verbatim>\<open>createItem\<close> stores the one it is given, so in the
  initial state, which has no List, \<^verbatim>\<open>createItem(7, 'Milk', 'P2')\<close> leaves an Item that
  names a List that is not there.
\<close>

theorem createItem_breaks_ref_integrity:
  "ref_integrity init \<and>
   \<not> ref_integrity (snd (exec (CreateItem 7 ''Milk'' ''P2'' ''t0'') init))"
  by code_simp

text \<open>
  Claim C2, amended. Referential integrity holds in the initial state, and a run keeps it
  from any state that has it, provided that each \<^verbatim>\<open>createItem\<close>, and each \<^verbatim>\<open>updateItem\<close>
  whose \<^verbatim>\<open>updates\<close> has a \<^verbatim>\<open>listId\<close>, names a List that is present when the call is made.
  Every other call keeps it unconditionally; \<^verbatim>\<open>deleteList\<close> keeps it by removing the
  Items of the List.
\<close>

theorem ref_integrity_kept:
  "ref_integrity init \<and>
   (wf_store s \<and> ref_integrity s \<and> run_names_present_lists cs s \<longrightarrow> ref_integrity (run cs s))"
proof
  show "ref_integrity init"
    by (simp add: ref_integrity_def init_view)
  show "wf_store s \<and> ref_integrity s \<and> run_names_present_lists cs s \<longrightarrow> ref_integrity (run cs s)"
  proof (induction cs arbitrary: s)
    case Nil
    show ?case by simp
  next
    case (Cons c cs)
    show ?case
      using Cons.IH [of "snd (exec c s)"] ref_integrity_exec [of s c] wf_exec [of s c]
      by auto
  qed
qed

theorem ref_integrity_kept_witness:
  "wf_store two_lists \<and> ref_integrity two_lists \<and>
   run_names_present_lists
     [CreateItem 2 ''Dust'' ''P3'' ''t5'', DeleteList 2, ToggleItem 1, DeleteItem 3] two_lists \<and>
   ref_integrity
     (run [CreateItem 2 ''Dust'' ''P3'' ''t5'', DeleteList 2, ToggleItem 1, DeleteItem 3] two_lists) \<and>
   map item_listId (todoItems
     (run [CreateItem 2 ''Dust'' ''P3'' ''t5'', DeleteList 2, ToggleItem 1, DeleteItem 3] two_lists)) = [1]"
proof -
  have a: "wf_store two_lists" "ref_integrity two_lists"
    "run_names_present_lists
       [CreateItem 2 ''Dust'' ''P3'' ''t5'', DeleteList 2, ToggleItem 1, DeleteItem 3] two_lists"
    by code_simp+
  have b: "map item_listId (todoItems
     (run [CreateItem 2 ''Dust'' ''P3'' ''t5'', DeleteList 2, ToggleItem 1, DeleteItem 3] two_lists)) = [1]"
    by code_simp
  from a b ref_integrity_kept
    [of two_lists "[CreateItem 2 ''Dust'' ''P3'' ''t5'', DeleteList 2, ToggleItem 1, DeleteItem 3]"]
  show ?thesis by blast
qed

subsection \<open>Ids\<close>

text \<open>
  Claim C3. In a run from the initial state, the ids that \<^verbatim>\<open>createList\<close> hands out are
  1, 2, 3, ... in the order of the calls, up to the value of \<^verbatim>\<open>nextListId\<close>, and those of
  \<^verbatim>\<open>createItem\<close> are 1, 2, 3, ... up to \<^verbatim>\<open>nextItemId\<close>: each counter counts the calls of
  its own function only, and no id is handed out twice, whatever the other calls of the
  run are. No two Lists of the store have the same id; and no two Items have the same
  id, in every run of creates, deletes, reads, toggles and updates in which no
  \<^verbatim>\<open>updateItem\<close> is given an \<^verbatim>\<open>id\<close> to write.
\<close>

theorem ids_never_shared:
  "issuedListIds cs init = [1 ..< nextListId (run cs init)] \<and>
   issuedItemIds cs init = [1 ..< nextItemId (run cs init)] \<and>
   distinct (map list_id (todoLists (run cs init))) \<and>
   ((\<forall>c \<in> set cs. keeps_item_id c) \<longrightarrow> distinct (map item_id (todoItems (run cs init))))"
proof (intro conjI impI)
  show "issuedListIds cs init = [1 ..< nextListId (run cs init)]"
    using issuedListIds_upt [of cs init] by (simp add: init_view)
  show "issuedItemIds cs init = [1 ..< nextItemId (run cs init)]"
    using issuedItemIds_upt [of cs init] by (simp add: init_view)
  show "distinct (map list_id (todoLists (run cs init)))"
    using list_ids_run [OF wf_init, of cs] by (simp add: init_view)
next
  assume "\<forall>c \<in> set cs. keeps_item_id c"
  then show "distinct (map item_id (todoItems (run cs init)))"
    using item_ids_run [OF wf_init, of cs] by (simp add: init_view)
qed

theorem ids_never_shared_witness:
  "list_all keeps_item_id (scenario @ [DeleteItem 1, CreateItem 1 ''Tea'' ''P3'' ''t3'']) \<and>
   issuedItemIds (scenario @ [DeleteItem 1, CreateItem 1 ''Tea'' ''P3'' ''t3'']) init = [1, 2, 3] \<and>
   map item_id (todoItems (run (scenario @ [DeleteItem 1, CreateItem 1 ''Tea'' ''P3'' ''t3'']) init)) = [2, 3] \<and>
   distinct (map item_id (todoItems (run (scenario @ [DeleteItem 1, CreateItem 1 ''Tea'' ''P3'' ''t3'']) init)))"
proof -
  let ?cs = "scenario @ [DeleteItem 1, CreateItem 1 ''Tea'' ''P3'' ''t3'']"
  have k: "list_all keeps_item_id ?cs" by code_simp
  have i: "issuedItemIds ?cs init = [1, 2, 3]" by code_simp
  have m: "map item_id (todoItems (run ?cs init)) = [2, 3]" by code_simp
  from k have "\<forall>c \<in> set ?cs. keeps_item_id c"
    by (simp only: list_all_iff)
  with ids_never_shared [of ?cs] have "distinct (map item_id (todoItems (run ?cs init)))"
    by blast
  with k i m show ?thesis by blast
qed

subsection \<open>Rejected calls\<close>

text \<open>
  Claim C4. A call is rejected exactly when it is an \<^verbatim>\<open>updateList\<close>, an \<^verbatim>\<open>updateItem\<close>
  or a \<^verbatim>\<open>toggleItem\<close> whose id is the id of no List (for \<^verbatim>\<open>updateList\<close>) or of no Item
  (for the other two) of the collection; every other call resolves. A rejected call
  leaves the whole state as it was, and the error it throws is
  \<^verbatim>\<open>Error('List not found')\<close> or \<^verbatim>\<open>Error('Item not found')\<close>.
\<close>

theorem rejects_iff_no_match:
  "(isl (fst (exec c s)) \<longleftrightarrow> no_match s c) \<and>
   (isl (fst (exec c s)) \<longrightarrow>
      snd (exec c s) = s \<and>
      (fst (exec c s) = Inl (Error ''List not found'') \<or>
       fst (exec c s) = Inl (Error ''Item not found'')))"
proof (intro conjI impI)
  show "isl (fst (exec c s)) \<longleftrightarrow> no_match s c"
    unfolding exec_rejects
    by (cases c) (simp_all add: updateList_isl updateItem_isl toggleItem_isl)
next
  assume "isl (fst (exec c s))"
  then obtain e where e: "fst (exec c s) = Inl e"
    by (cases "fst (exec c s)") simp_all
  then have e': "case c of UpdateList i t \<Rightarrow> fst (updateList i t s) = Inl e
      | UpdateItem i u \<Rightarrow> fst (updateItem i u s) = Inl e
      | ToggleItem i \<Rightarrow> fst (toggleItem i s) = Inl e
      | _ \<Rightarrow> False"
    by (simp only: exec_Inl)
  show "snd (exec c s) = s"
    unfolding snd_exec using e'
    by (cases c) (auto dest: updateList_Inl updateItem_Inl toggleItem_Inl)
  have "e = Error ''List not found'' \<or> e = Error ''Item not found''"
    using e' by (cases c) (auto dest: updateList_Inl updateItem_Inl toggleItem_Inl)
  with e show "fst (exec c s) = Inl (Error ''List not found'') \<or>
       fst (exec c s) = Inl (Error ''Item not found'')"
    by simp
qed

theorem rejects_iff_no_match_witness:
  "no_match two_lists (ToggleItem 9) \<and>
   isl (fst (exec (ToggleItem 9) two_lists)) \<and>
   snd (exec (ToggleItem 9) two_lists) = two_lists \<and>
   no_match two_lists (UpdateList 9 ''Shopping'') \<and>
   isl (fst (exec (UpdateList 9 ''Shopping'') two_lists)) \<and>
   snd (exec (UpdateList 9 ''Shopping'') two_lists) = two_lists \<and>
   \<not> no_match two_lists (ToggleItem 3) \<and>
   \<not> isl (fst (exec (ToggleItem 3) two_lists))"
proof -
  have a: "no_match two_lists (ToggleItem 9)"
    "no_match two_lists (UpdateList 9 ''Shopping'')"
    "\<not> no_match two_lists (ToggleItem 3)"
    by code_simp+
  from a rejects_iff_no_match [of "ToggleItem 9" two_lists]
    rejects_iff_no_match [of "UpdateList 9 ''Shopping''" two_lists]
    rejects_iff_no_match [of "ToggleItem 3" two_lists]
  show ?thesis by blast
qed

subsection \<open>Deleting\<close>

text \<open>
  Claim C5. \<^verbatim>\<open>deleteList\<close> and \<^verbatim>\<open>deleteItem\<close> resolve with \<^verbatim>\<open>{ success: true }\<close> for every
  id, whether an entity has it or not, and so never reject; a second call with the same id
  leaves the store state (the two collections, the objects and the two counters) as the
  first call left it.
\<close>

theorem deletes_idempotent:
  "wf_store s \<Longrightarrow>
   fst (exec (DeleteList i) s) = Inr (Ack \<lparr>success = True\<rparr>) \<and>
   fst (exec (DeleteItem i) s) = Inr (Ack \<lparr>success = True\<rparr>) \<and>
   store_state (run [DeleteList i, DeleteList i] s) = store_state (run [DeleteList i] s) \<and>
   store_state (run [DeleteItem i, DeleteItem i] s) = store_state (run [DeleteItem i] s)"
  by (simp add: exec.simps api_defs view_defs store_state_def wf_store_def Let_def nth_append)

theorem deletes_idempotent_witness:
  "wf_store two_lists \<and>
   map list_id (todoLists (run [DeleteList 1] two_lists)) = [2] \<and>
   fst (exec (DeleteList 1) two_lists) = Inr (Ack \<lparr>success = True\<rparr>) \<and>
   fst (exec (DeleteItem 9) two_lists) = Inr (Ack \<lparr>success = True\<rparr>) \<and>
   store_state (run [DeleteList 1, DeleteList 1] two_lists) = store_state (run [DeleteList 1] two_lists) \<and>
   store_state (run [DeleteItem 9, DeleteItem 9] two_lists) =
     store_state (run [DeleteItem 9] two_lists)"
proof -
  have h: "wf_store two_lists" by code_simp
  have l: "map list_id (todoLists (run [DeleteList 1] two_lists)) = [2]" by code_simp
  from deletes_idempotent [OF h, of 1] deletes_idempotent [OF h, of 9] h l
  show ?thesis by blast
qed

subsection \<open>Creating an Item\<close>

text \<open>
  Claim C6. In every state a run from the initial state reaches, \<^verbatim>\<open>createItem\<close> resolves,
  for every \<^verbatim>\<open>listId\<close> (the id of a List or not), title and priority. The object it
  resolves with has the value of \<^verbatim>\<open>nextItemId\<close> as id, the given \<^verbatim>\<open>listId\<close>, title and
  priority, \<^verbatim>\<open>completed\<close> false and the clock reading as \<^verbatim>\<open>createdAt\<close>. The id has not been
  handed out before in the run, and is the id of no Item of the collection when no
  \<^verbatim>\<open>updateItem\<close> of the run was given an \<^verbatim>\<open>id\<close> to write. The Item collection afterwards
  is the one before with that object at the end; the List collection is as before.
\<close>

theorem createItem_appends:
  "case createItem listId title priority now (run cs init) of
     (r, s') \<Rightarrow>
       exec (CreateItem listId title priority now) (run cs init) = (Inr (ItemObj r), s') \<and>
       itemObjs s' ! r =
         \<lparr>item_id = nextItemId (run cs init), item_listId = listId, item_title = title,
          item_priority = priority, item_completed = False, item_createdAt = now\<rparr> \<and>
       nextItemId (run cs init) \<notin> set (issuedItemIds cs init) \<and>
       ((\<forall>c \<in> set cs. keeps_item_id c) \<longrightarrow>
          nextItemId (run cs init) \<notin> set (map item_id (todoItems (run cs init)))) \<and>
       todoItems s' = todoItems (run cs init) @ [itemObjs s' ! r] \<and>
       todoLists s' = todoLists (run cs init)"
proof -
  let ?s = "run cs init"
  have wf: "wf_store ?s" by (rule wf_run_init)
  have fresh: "nextItemId ?s \<notin> set (issuedItemIds cs init)"
    by (simp add: issuedItemIds_upt)
  have below: "(\<forall>c \<in> set cs. keeps_item_id c) \<longrightarrow>
      nextItemId ?s \<notin> set (map item_id (todoItems ?s))"
    using item_ids_run [OF wf_init, of cs] by (auto simp: init_view)
  show ?thesis
    using fresh below createItem_view(1,2) [OF wf, of listId title priority now]
      createItem_result [of listId title priority now ?s]
    by (simp add: case_prod_beta exec.simps)
qed

theorem createItem_appends_witness:
  "42 \<notin> set (map list_id (todoLists (run scenario init))) \<and>
   list_all keeps_item_id scenario \<and>
   fst (createItem 42 ''Bread'' ''P3'' ''t9'' (run scenario init)) = 2 \<and>
   itemObjs (snd (createItem 42 ''Bread'' ''P3'' ''t9'' (run scenario init))) ! 2 =
     \<lparr>item_id = 3, item_listId = 42, item_title = ''Bread'', item_priority = ''P3'',
      item_completed = False, item_createdAt = ''t9''\<rparr> \<and>
   3 \<notin> set (issuedItemIds scenario init) \<and>
   3 \<notin> set (map item_id (todoItems (run scenario init))) \<and>
   map item_id (todoItems (snd (createItem 42 ''Bread'' ''P3'' ''t9'' (run scenario init)))) =
     [1, 2, 3]"
proof -
  have a: "42 \<notin> set (map list_id (todoLists (run scenario init)))" by code_simp
  have k: "list_all keeps_item_id scenario" by code_simp
  then have k': "\<forall>c \<in> set scenario. keeps_item_id c"
    by (simp only: list_all_iff)
  have r: "fst (createItem 42 ''Bread'' ''P3'' ''t9'' (run scenario init)) = 2" by code_simp
  have n: "nextItemId (run scenario init) = 3" by code_simp
  have m: "map item_id (todoItems (run scenario init)) = [1, 2]" by code_simp
  from createItem_appends [of 42 "''Bread''" "''P3''" "''t9''" scenario] k' a k r n m
  show ?thesis by (simp add: case_prod_beta)
qed

subsection \<open>Updating\<close>

text \<open>
  Claim C7 says that \<^verbatim>\<open>updateItem\<close> with any partial field set leaves the id and the
  creation time of the Item as they were. \<^verbatim>\<open>Object.assign(item, updates)\<close> writes every
  property of \<^verbatim>\<open>updates\<close>: with \<^verbatim>\<open>{ id: 1, createdAt: 't9' }\<close> the third Item of
  \<open>two_lists\<close> gets the id of the first and a new creation time.
\<close>

theorem updateItem_writes_id_and_createdAt:
  "map item_id (todoItems two_lists) = [1, 2, 3] \<and>
   map item_createdAt (todoItems two_lists) = [''t2'', ''t3'', ''t4''] \<and>
   fst (updateItem 3 id_and_date two_lists) = Inr 2 \<and>
   map item_id (todoItems (snd (updateItem 3 id_and_date two_lists))) = [1, 2, 1] \<and>
   map item_createdAt (todoItems (snd (updateItem 3 id_and_date two_lists))) = [''t2'', ''t3'', ''t9'']"
  by code_simp

text \<open>
  Claim C7, amended. \<^verbatim>\<open>updateList\<close> and \<^verbatim>\<open>toggleItem\<close> leave the id and the creation
  time of every object as they were; \<^verbatim>\<open>updateItem\<close> leaves the id as it was when
  \<^verbatim>\<open>updates\<close> has no \<^verbatim>\<open>id\<close>, and the creation time when \<^verbatim>\<open>updates\<close> has no \<^verbatim>\<open>createdAt\<close>.
  In every state a run from the initial state reaches, creating a List titled
  \<^verbatim>\<open>'Groceries'\<close> and then updating the List of that id to \<^verbatim>\<open>'Shopping'\<close> resolves with the
  object that was created, which then has the title \<^verbatim>\<open>'Shopping'\<close> and the id and the
  creation time it was created with.
\<close>

theorem updates_keep_id_and_createdAt:
  "list_id (listObjs (snd (updateList i t s)) ! x) = list_id (listObjs s ! x) \<and>
   list_createdAt (listObjs (snd (updateList i t s)) ! x) = list_createdAt (listObjs s ! x) \<and>
   item_id (itemObjs (snd (toggleItem i s)) ! x) = item_id (itemObjs s ! x) \<and>
   item_createdAt (itemObjs (snd (toggleItem i s)) ! x) = item_createdAt (itemObjs s ! x) \<and>
   (upd_id u = None \<longrightarrow>
      item_id (itemObjs (snd (updateItem i u s)) ! x) = item_id (itemObjs s ! x)) \<and>
   (upd_createdAt u = None \<longrightarrow>
      item_createdAt (itemObjs (snd (updateItem i u s)) ! x) = item_createdAt (itemObjs s ! x)) \<and>
   (case createList ''Groceries'' now (run cs init) of
      (r, s1) \<Rightarrow>
        listObjs s1 ! r = \<lparr>list_id = nextListId (run cs init), list_title = ''Groceries'',
                            list_createdAt = now\<rparr> \<and>
        (case updateList (nextListId (run cs init)) ''Shopping'' s1 of
           (res, s2) \<Rightarrow>
             res = Inr r \<and>
             listObjs s2 ! r = \<lparr>list_id = nextListId (run cs init), list_title = ''Shopping'',
                                 list_createdAt = now\<rparr>))"
proof -
  let ?s = "run cs init"
  have wf: "wf_store ?s" by (rule wf_run_init)
  have below: "\<forall>i \<in> set (map list_id (todoLists ?s)). i < nextListId ?s"
    using list_ids_run [OF wf_init, of cs] by (simp add: init_view)
  have r: "fst (createList ''Groceries'' now ?s) = length (listObjs ?s)"
    by (simp add: createList_def Let_def)
  have o: "listObjs (snd (createList ''Groceries'' now ?s)) =
      listObjs ?s @ [\<lparr>list_id = nextListId ?s, list_title = ''Groceries'', list_createdAt = now\<rparr>]"
    by (simp add: createList_def Let_def)
  show ?thesis
    using create_then_update [OF wf below, of "''Shopping''" "''Groceries''" now] r o
    by (simp add: updateList_frame toggleItem_frame updateItem_frame case_prod_beta)
qed

theorem updates_keep_id_and_createdAt_witness:
  "upd_id new_title = None \<and> upd_createdAt new_title = None \<and>
   fst (updateItem 3 new_title two_lists) = Inr 2 \<and>
   item_id (itemObjs two_lists ! 2) = 3 \<and>
   item_id (itemObjs (snd (updateItem 3 new_title two_lists)) ! 2) = 3 \<and>
   item_createdAt (itemObjs (snd (updateItem 3 new_title two_lists)) ! 2) = ''t4'' \<and>
   item_title (itemObjs (snd (updateItem 3 new_title two_lists)) ! 2) = ''Bread'' \<and>
   fst (createList ''Groceries'' ''t5'' (run scenario init)) = 1 \<and>
   updateList 2 ''Shopping'' (snd (createList ''Groceries'' ''t5'' (run scenario init))) =
     (Inr 1, snd (updateList 2 ''Shopping'' (snd (createList ''Groceries'' ''t5'' (run scenario init))))) \<and>
   listObjs (snd (updateList 2 ''Shopping'' (snd (createList ''Groceries'' ''t5'' (run scenario init))))) ! 1 =
     \<lparr>list_id = 2, list_title = ''Shopping'', list_createdAt = ''t5''\<rparr>"
proof -
  have a: "upd_id new_title = None" "upd_createdAt new_title = None"
    "fst (updateItem 3 new_title two_lists) = Inr 2"
    "item_id (itemObjs two_lists ! 2) = 3"
    "item_createdAt (itemObjs two_lists ! 2) = ''t4''"
    "item_title (itemObjs (snd (updateItem 3 new_title two_lists)) ! 2) = ''Bread''"
    "fst (createList ''Groceries'' ''t5'' (run scenario init)) = 1"
    "nextListId (run scenario init) = 2"
    by code_simp+
  from a updates_keep_id_and_createdAt
    [where i = 3 and s = two_lists and x = 2 and u = new_title and now = "''t5''" and cs = scenario]
  show ?thesis by (simp add: case_prod_beta prod_eq_iff)
qed

subsection \<open>Toggling\<close>

text \<open>
  Claim C8. When \<open>i\<close> is the id of an Item of the collection, \<^verbatim>\<open>toggleItem(i)\<close>
  resolves with an Item of the collection that has the id \<open>i\<close> (the first one in the
  collection). Afterwards that object has \<^verbatim>\<open>completed\<close> negated and every other field
  as before; the Item collection is the one before with that one entry replaced, so no
  other Item is changed; the List collection and everything else in the state are as
  before.
\<close>

theorem toggleItem_flips:
  "wf_store s \<Longrightarrow> i \<in> set (map item_id (todoItems s)) \<Longrightarrow>
     \<exists>r k. toggleItem i s =
              (Inr r, s\<lparr>itemObjs := (itemObjs s)[r := (itemObjs s ! r)
                                      \<lparr>item_completed := \<not> item_completed (itemObjs s ! r)\<rparr>]\<rparr>) \<and>
           k < length (todoItems s) \<and> items_array s ! k = r \<and> itemObjs s ! r = todoItems s ! k \<and>
           item_id (todoItems s ! k) = i \<and>
           itemObjs (snd (toggleItem i s)) ! r =
             (todoItems s ! k)\<lparr>item_completed := \<not> item_completed (todoItems s ! k)\<rparr> \<and>
           todoItems (snd (toggleItem i s)) =
             (todoItems s)[k := (todoItems s ! k)
                                  \<lparr>item_completed := \<not> item_completed (todoItems s ! k)\<rparr>] \<and>
           todoLists (snd (toggleItem i s)) = todoLists s"
proof -
  assume wf: "wf_store s" and i: "i \<in> set (map item_id (todoItems s))"
  from i have "\<not> isl (fst (toggleItem i s))"
    by (simp add: toggleItem_isl)
  then obtain r where r: "fst (toggleItem i s) = Inr r"
    by (cases "fst (toggleItem i s)") simp_all
  let ?v = "(itemObjs s ! r)\<lparr>item_completed := \<not> item_completed (itemObjs s ! r)\<rparr>"
  from toggleItem_Inr [OF r]
  have mem: "r \<in> set (items_array s)" and id: "item_id (itemObjs s ! r) = i"
    and s': "snd (toggleItem i s) = s\<lparr>itemObjs := (itemObjs s)[r := ?v]\<rparr>"
    by simp_all
  from mem obtain k where k: "k < length (items_array s)" "items_array s ! k = r"
    by (auto simp: in_set_conv_nth)
  from wf mem have len: "r < length (itemObjs s)"
    by (simp add: wf_store_def)
  from k have at: "todoItems s ! k = itemObjs s ! r"
    by (simp add: todoItems_def)
  have arr: "items_array (snd (toggleItem i s)) = items_array s"
    by (simp add: s' items_array_def)
  have "todoItems (snd (toggleItem i s)) =
      map (\<lambda>x. (itemObjs s)[items_array s ! k := ?v] ! x) (items_array s)"
    by (simp add: todoItems_def arr k) (simp add: s')
  also have "\<dots> = (todoItems s)[k := ?v]"
    unfolding todoItems_def
    using wf_distinct [OF wf] k len by (intro map_nth_update_distinct) simp_all
  finally have items: "todoItems (snd (toggleItem i s)) = (todoItems s)[k := ?v]" .
  have "toggleItem i s = (Inr r, s\<lparr>itemObjs := (itemObjs s)[r := ?v]\<rparr>)"
    using r s' by (simp add: prod_eq_iff)
  moreover have "itemObjs (snd (toggleItem i s)) ! r = ?v"
    using len by (simp add: s')
  ultimately show ?thesis
    using k at id items toggleItem_view(3) [of i s]
    by (intro exI [of _ r] exI [of _ k]) (simp add: todoItems_def)
qed

theorem toggleItem_flips_witness:
  "wf_store two_lists \<and> 3 \<in> set (map item_id (todoItems two_lists)) \<and>
   map item_completed (todoItems two_lists) = [False, False, False] \<and>
   map item_completed (todoItems (snd (toggleItem 3 two_lists))) = [False, False, True] \<and>
   fst (toggleItem 3 two_lists) = Inr 2 \<and>
   todoLists (snd (toggleItem 3 two_lists)) = todoLists two_lists"
proof -
  have h: "wf_store two_lists" "3 \<in> set (map item_id (todoItems two_lists))"
    by code_simp+
  have c: "map item_completed (todoItems two_lists) = [False, False, False]"
    "map item_completed (todoItems (snd (toggleItem 3 two_lists))) = [False, False, True]"
    "fst (toggleItem 3 two_lists) = Inr 2"
    by code_simp+
  from toggleItem_flips [OF h] have "todoLists (snd (toggleItem 3 two_lists)) = todoLists two_lists"
    by blast
  with h c show ?thesis by blast
qed

subsection \<open>Reading\<close>

text \<open>
  Claim C9 says that no write to any part of what a read resolved with changes what the
  store sees afterwards. The array is new, but its elements are the objects of the
  store: after \<^verbatim>\<open>lists[0].title = 'Mine'\<close> on the array that \<^verbatim>\<open>getAllLists\<close> resolved with,
  the first List of the store has the title \<^verbatim>\<open>'Mine'\<close>.
\<close>

theorem snapshot_shares_objects:
  "map list_title (todoLists (snd (getAllLists two_lists))) = [''Groceries'', ''Chores''] \<and>
   map list_title (todoLists written_snapshot) = [''Mine'', ''Chores''] \<and>
   store_state written_snapshot \<noteq> store_state (snd (getAllLists two_lists))"
  by code_simp

text \<open>
  Claim C9, amended. \<^verbatim>\<open>getAllLists\<close> and \<^verbatim>\<open>getItemsByList\<close> leave the store state as it
  was. Each resolves with a new array, which is neither of the two arrays of the store:
  giving it other contents changes neither the store state, nor what a later call
  resolves with, nor the store state that later calls lead to, and no later call of the
  store changes its contents. The array of \<^verbatim>\<open>getAllLists\<close> holds the Lists of the
  collection, that of \<^verbatim>\<open>getItemsByList(l)\<close> the Items of the collection whose \<^verbatim>\<open>listId\<close>
  is \<open>l\<close>, both in the order of the collection, which is the order of creation. The
  elements are references to the objects of the store themselves.
\<close>

theorem reads_return_new_arrays:
  "wf_store s \<Longrightarrow>
   (case getAllLists s of
      (a, s') \<Rightarrow>
        store_state s' = store_state s \<and>
        arrays s' ! a = lists_array s \<and>
        map (\<lambda>r. listObjs s' ! r) (arrays s' ! a) = todoLists s \<and>
        sorted_wrt (<) (arrays s' ! a) \<and>
        a \<noteq> todoListsData s' \<and> a \<noteq> todoItemsData s' \<and>
        store_state (write_array a xs s') = store_state s' \<and>
        fst (exec c (write_array a xs s')) = fst (exec c s') \<and>
        store_state (run cs (write_array a xs s')) = store_state (run cs s') \<and>
        arrays (run cs s') ! a = arrays s' ! a) \<and>
   (case getItemsByList l s of
      (a, s') \<Rightarrow>
        store_state s' = store_state s \<and>
        arrays s' ! a = filter (\<lambda>r. item_listId (itemObjs s ! r) = l) (items_array s) \<and>
        map (\<lambda>r. itemObjs s' ! r) (arrays s' ! a) =
          filter (\<lambda>item. item_listId item = l) (todoItems s) \<and>
        sorted_wrt (<) (arrays s' ! a) \<and>
        a \<noteq> todoListsData s' \<and> a \<noteq> todoItemsData s' \<and>
        store_state (write_array a xs s') = store_state s' \<and>
        fst (exec c (write_array a xs s')) = fst (exec c s') \<and>
        store_state (run cs (write_array a xs s')) = store_state (run cs s') \<and>
        arrays (run cs s') ! a = arrays s' ! a)"
proof -
  assume wf: "wf_store s"
  let ?a = "fst (getAllLists s)" and ?s = "snd (getAllLists s)"
  let ?b = "fst (getItemsByList l s)" and ?t = "snd (getItemsByList l s)"
  note wfs = wf_getAllLists [OF wf] and wft = wf_getItemsByList [OF wf, of l]
  note fa = getAllLists_fresh [OF wf] and fb = getItemsByList_fresh [OF wf, of l]
  have objs: "listObjs ?s = listObjs s" "itemObjs ?t = itemObjs s"
    by (simp_all add: api_defs)
  have sorted: "sorted_wrt (<) (lists_array s)"
    "sorted_wrt (<) (filter (\<lambda>r. item_listId (itemObjs s ! r) = l) (items_array s))"
    using wf by (simp_all add: wf_store_def sorted_wrt_filter)
  have wa: "store_state (write_array ?a xs ?s) = store_state ?s"
    using fa by (simp add: write_array_other)
  have wb: "store_state (write_array ?b xs ?t) = store_state ?t"
    using fb by (simp add: write_array_other)
  have ra: "store_state (run cs (write_array ?a xs ?s)) = store_state (run cs ?s)"
    using wf_write_array [OF wfs fa(2,3)] wfs wa by (rule store_state_run)
  have rb: "store_state (run cs (write_array ?b xs ?t)) = store_state (run cs ?t)"
    using wf_write_array [OF wft fb(2,3)] wft wb by (rule store_state_run)
  have ea: "fst (exec c (write_array ?a xs ?s)) = fst (exec c ?s)"
    using fa(2,3) by (rule fst_exec_write_array)
  have eb: "fst (exec c (write_array ?b xs ?t)) = fst (exec c ?t)"
    using fb(2,3) by (rule fst_exec_write_array)
  show ?thesis
    using getAllLists_view [OF wf] getItemsByList_view [OF wf, of l] fa fb
      array_stable_run [where cs = cs, OF wfs fa]
      array_stable_run [where cs = cs and s = ?t, OF wft fb]
      sorted objs wa wb ra rb ea eb
    by (simp add: case_prod_beta todoLists_def todoItems_def filter_map comp_def)
qed

theorem reads_return_new_arrays_witness:
  "wf_store two_lists \<and>
   fst (getAllLists two_lists) = 2 \<and>
   arrays (snd (getAllLists two_lists)) ! 2 = [0, 1] \<and>
   store_state (snd (getAllLists two_lists)) = store_state two_lists \<and>
   store_state (write_array 2 [] (snd (getAllLists two_lists))) = store_state two_lists \<and>
   arrays (run [DeleteList 1] (snd (getAllLists two_lists))) ! 2 = [0, 1] \<and>
   fst (getItemsByList 1 two_lists) = 2 \<and>
   arrays (snd (getItemsByList 1 two_lists)) ! 2 = [0, 2] \<and>
   store_state (snd (getItemsByList 1 two_lists)) = store_state two_lists"
proof -
  have h: "wf_store two_lists" by code_simp
  have a: "fst (getAllLists two_lists) = 2" "fst (getItemsByList 1 two_lists) = 2"
    "lists_array two_lists = [0, 1]"
    "filter (\<lambda>r. item_listId (itemObjs two_lists ! r) = 1) (items_array two_lists) = [0, 2]"
    by code_simp+
  from reads_return_new_arrays [OF h, where xs = "[]" and cs = "[DeleteList 1]" and l = 1] h a
  show ?thesis by (simp add: case_prod_beta)
qed

subsection \<open>What a delete leaves\<close>

text \<open>
  Claim C10. \<^verbatim>\<open>deleteList(i)\<close> leaves in the List collection the Lists whose id is not
  \<open>i\<close> and in the Item collection the Items whose \<^verbatim>\<open>listId\<close> is not \<open>i\<close>;
  \<^verbatim>\<open>deleteItem(i)\<close> leaves the List collection as it is and in the Item collection the
  Items whose id is not \<open>i\<close>. What is left keeps its order, no object has a field
  changed, and the two counters keep their values.
\<close>

theorem deletes_remove_exactly:
  "wf_store s \<Longrightarrow>
     todoLists (snd (deleteList i s)) = filter (\<lambda>l. list_id l \<noteq> i) (todoLists s) \<and>
     todoItems (snd (deleteList i s)) = filter (\<lambda>x. item_listId x \<noteq> i) (todoItems s) \<and>
     todoLists (snd (deleteItem i s)) = todoLists s \<and>
     todoItems (snd (deleteItem i s)) = filter (\<lambda>x. item_id x \<noteq> i) (todoItems s) \<and>
     listObjs (snd (deleteList i s)) = listObjs s \<and> itemObjs (snd (deleteList i s)) = itemObjs s \<and>
     listObjs (snd (deleteItem i s)) = listObjs s \<and> itemObjs (snd (deleteItem i s)) = itemObjs s \<and>
     nextListId (snd (deleteList i s)) = nextListId s \<and>
     nextItemId (snd (deleteList i s)) = nextItemId s \<and>
     nextListId (snd (deleteItem i s)) = nextListId s \<and>
     nextItemId (snd (deleteItem i s)) = nextItemId s"
  by (simp add: deleteList_view deleteItem_view)

theorem deletes_remove_exactly_witness:
  "wf_store two_lists \<and>
   map list_id (todoLists two_lists) = [1, 2] \<and>
   map item_id (todoItems two_lists) = [1, 2, 3] \<and>
   map list_id (todoLists (snd (deleteList 1 two_lists))) = [2] \<and>
   map item_id (todoItems (snd (deleteList 1 two_lists))) = [2] \<and>
   map item_id (todoItems (snd (deleteItem 2 two_lists))) = [1, 3] \<and>
   todoLists (snd (deleteItem 2 two_lists)) = todoLists two_lists \<and>
   nextListId (snd (deleteList 1 two_lists)) = 3 \<and>
   nextItemId (snd (deleteItem 2 two_lists)) = 4"
proof -
  have h: "wf_store two_lists" by code_simp
  have l: "todoLists two_lists =
     [\<lparr>list_id = 1, list_title = ''Groceries'', list_createdAt = ''t0''\<rparr>,
      \<lparr>list_id = 2, list_title = ''Chores'', list_createdAt = ''t1''\<rparr>]" by code_simp
  have i: "todoItems two_lists =
     [\<lparr>item_id = 1, item_listId = 1, item_title = ''Milk'', item_priority = ''P2'',
        item_completed = False, item_createdAt = ''t2''\<rparr>,
      \<lparr>item_id = 2, item_listId = 2, item_title = ''Sweep'', item_priority = ''P3'',
        item_completed = False, item_createdAt = ''t3''\<rparr>,
      \<lparr>item_id = 3, item_listId = 1, item_title = ''Eggs'', item_priority = ''P1'',
        item_completed = False, item_createdAt = ''t4''\<rparr>]" by code_simp
  have n: "nextListId two_lists = 3" "nextItemId two_lists = 4" by code_simp+
  from deletes_remove_exactly [OF h, of 1] deletes_remove_exactly [OF h, of 2] h l i n
  show ?thesis by simp
qed


end
